theory Spec2Isabelle
  imports Complex_Main "HOL-Library.Sublist"
begin

section \<open>Data model\<close>

text \<open>
  Timestamps are seconds. Python reads them from JSON as floats; here they are real
  numbers, so every sum, difference and comparison of the source is exact. The
  initial \<open>min_dist = float('inf')\<close> of the aligner is \<open>None\<close> of type
  \<open>real option\<close>.

  A diarization segment is the dict \<open>{'start', 'end', 'speaker'}\<close>, taken with
  its three keys present, numbers for the two times and a string for the speaker. A
  segment without one of its keys, on which Python raises KeyError, and a value of
  another JSON type (\<open>null\<close>, say), on which the arithmetic raises TypeError, are
  not values of this type.
\<close>

record segment =
  seg_start :: real
  seg_end :: real
  seg_speaker :: string

text \<open>
  An entry of \<open>word_speakers\<close> is the dict \<open>{'word', 'start', 'end', 'speaker'}\<close>.
  The grouping loop reads only \<open>'speaker'\<close> and \<open>'word'\<close>, so these two fields form
  the base record and the timestamps extend it.
\<close>

record spoken =
  word :: string
  speaker :: string

record assigned = spoken +
  w_start :: real
  w_end :: real

text \<open>
  An entry of \<open>final_transcript\<close> is the dict \<open>{'speaker', 'text'}\<close>. Its speaker is
  the value of \<open>current_speaker\<close>, which starts as Python's \<open>None\<close>.
\<close>

record utterance =
  utt_speaker :: "string option"
  utt_text :: string

text \<open>
  An entry of \<open>transcription['timestamps']\<close>: a dict read at the keys \<open>'word'\<close>,
  \<open>'start'\<close>, \<open>'end'\<close>, \<open>'start_offset'\<close> and \<open>'end_offset'\<close>; each key is absent
  (\<open>None\<close>) or present with a string for the word, a number for a time. A present
  key with a value of another JSON type is not a value of this type, so the only
  exception of the word loop in this model is the KeyError of a missing \<open>'word'\<close>.
\<close>

record word_data =
  wd_word :: "string option"
  wd_start :: "real option"
  wd_end :: "real option"
  wd_start_offset :: "real option"
  wd_end_offset :: "real option"

datatype error = KeyError string

section \<open>Segment filter\<close>

text \<open>\<open>filter_short_segments(segments, threshold=0.3)\<close>: the list comprehension.\<close>

fun filter_short_segments :: "segment list \<Rightarrow> real \<Rightarrow> segment list" where
  "filter_short_segments [] threshold = []"
| "filter_short_segments (s # segments) threshold =
     (if seg_end s - seg_start s \<ge> threshold
      then s # filter_short_segments segments threshold
      else filter_short_segments segments threshold)"

definition filter_short_segments_default :: "segment list \<Rightarrow> segment list" where
  "filter_short_segments_default segments = filter_short_segments segments 0.3"

section \<open>Word aligner\<close>

text \<open>The first loop of \<open>get_speaker_improved\<close>: return at the first containing segment.\<close>

fun exact_match :: "real \<Rightarrow> segment list \<Rightarrow> string option" where
  "exact_match word_mid [] = None"
| "exact_match word_mid (seg # segments) =
     (if seg_start seg \<le> word_mid \<and> word_mid \<le> seg_end seg
      then Some (seg_speaker seg)
      else exact_match word_mid segments)"

text \<open>The distance computed in the body of the second loop.\<close>

definition seg_dist :: "real \<Rightarrow> real \<Rightarrow> segment \<Rightarrow> real" where
  "seg_dist word_start word_end seg =
     (if word_end < seg_start seg then seg_start seg - word_end
      else if word_start > seg_end seg then word_start - seg_end seg
      else 0)"

text \<open>\<open>dist < min_dist\<close>, where \<open>min_dist\<close> is infinite until a distance is stored.\<close>

fun less_min_dist :: "real \<Rightarrow> real option \<Rightarrow> bool" where
  "less_min_dist dst None = True"
| "less_min_dist dst (Some m) = (dst < m)"

text \<open>The second loop, on the state \<open>(closest_speaker, min_dist)\<close>.\<close>

fun closest_match ::
  "real \<Rightarrow> real \<Rightarrow> segment list \<Rightarrow> string \<times> real option \<Rightarrow> string \<times> real option" where
  "closest_match word_start word_end [] st = st"
| "closest_match word_start word_end (seg # segments) (closest_speaker, min_dist) =
     (let dst = seg_dist word_start word_end seg
      in if less_min_dist dst min_dist
         then closest_match word_start word_end segments (seg_speaker seg, Some dst)
         else closest_match word_start word_end segments (closest_speaker, min_dist))"

definition get_speaker_improved :: "real \<Rightarrow> real \<Rightarrow> segment list \<Rightarrow> string" where
  "get_speaker_improved word_start word_end segments =
     (let word_mid = (word_start + word_end) / 2
      in case exact_match word_mid segments of
           Some sp \<Rightarrow> sp
         | None \<Rightarrow> fst (closest_match word_start word_end segments (''Unknown'', None)))"

subsection \<open>The aligner of video_transcriber.py\<close>

text \<open>
  \<open>get_speaker_for_word\<close> has the same two loops; its distance starts at 0 and has
  no final \<open>else\<close> branch.
\<close>

fun exact_match_vt :: "real \<Rightarrow> segment list \<Rightarrow> string option" where
  "exact_match_vt word_mid [] = None"
| "exact_match_vt word_mid (seg # segments) =
     (if seg_start seg \<le> word_mid \<and> word_mid \<le> seg_end seg
      then Some (seg_speaker seg)
      else exact_match_vt word_mid segments)"

definition seg_dist_vt :: "real \<Rightarrow> real \<Rightarrow> segment \<Rightarrow> real" where
  "seg_dist_vt word_start word_end seg =
     (let dst = 0
      in if word_end < seg_start seg then seg_start seg - word_end
         else if word_start > seg_end seg then word_start - seg_end seg
         else dst)"

fun closest_match_vt ::
  "real \<Rightarrow> real \<Rightarrow> segment list \<Rightarrow> string \<times> real option \<Rightarrow> string \<times> real option" where
  "closest_match_vt word_start word_end [] st = st"
| "closest_match_vt word_start word_end (seg # segments) (closest_speaker, min_dist) =
     (let dst = seg_dist_vt word_start word_end seg
      in if less_min_dist dst min_dist
         then closest_match_vt word_start word_end segments (seg_speaker seg, Some dst)
         else closest_match_vt word_start word_end segments (closest_speaker, min_dist))"

definition get_speaker_for_word :: "real \<Rightarrow> real \<Rightarrow> segment list \<Rightarrow> string" where
  "get_speaker_for_word word_start word_end segments =
     (let word_mid = (word_start + word_end) / 2
      in case exact_match_vt word_mid segments of
           Some sp \<Rightarrow> sp
         | None \<Rightarrow> fst (closest_match_vt word_start word_end segments (''Unknown'', None)))"

section \<open>Speaker assignment of the word list\<close>

text \<open>\<open>d.get(key, default)\<close> on a key that is absent or present.\<close>

fun dict_get :: "'a option \<Rightarrow> 'a \<Rightarrow> 'a" where
  "dict_get None dflt = dflt"
| "dict_get (Some v) dflt = v"

text \<open>
  The body of the first loop of \<open>generate_transcript\<close>. The timestamps are read and
  the aligner has run before \<open>word_data['word']\<close> is evaluated, which raises KeyError
  on a dict without that key.
\<close>

definition assign_word :: "segment list \<Rightarrow> word_data \<Rightarrow> error + assigned" where
  "assign_word speaker_segments wd =
     (let w_start = dict_get (wd_start wd) (dict_get (wd_start_offset wd) 0);
          w_end = dict_get (wd_end wd) (dict_get (wd_end_offset wd) 0);
          speaker = get_speaker_improved w_start w_end speaker_segments
      in case wd_word wd of
           None \<Rightarrow> Inl (KeyError ''word'')
         | Some w \<Rightarrow> Inr \<lparr>word = w, speaker = speaker, w_start = w_start, w_end = w_end\<rparr>)"

fun assign_loop :: "segment list \<Rightarrow> word_data list \<Rightarrow> assigned list \<Rightarrow> error + assigned list" where
  "assign_loop speaker_segments [] word_speakers = Inr word_speakers"
| "assign_loop speaker_segments (wd # word_timestamps) word_speakers =
     (case assign_word speaker_segments wd of
        Inl e \<Rightarrow> Inl e
      | Inr a \<Rightarrow> assign_loop speaker_segments word_timestamps (word_speakers @ [a]))"

section \<open>Speaker smoothing\<close>

text \<open>
  The body of \<open>for i in range(1, len(word_speakers))\<close>: the list is updated in place
  at index \<open>i\<close>. The loop starts at 1, so \<open>i - 1\<close> is an index of the list.
\<close>

definition smooth_step :: "nat \<Rightarrow> assigned list \<Rightarrow> assigned list" where
  "smooth_step i word_speakers =
     (let prev = word_speakers ! (i - 1);
          curr = word_speakers ! i;
          gap = w_start curr - w_end prev
      in if gap < 0.25
         then word_speakers[i := curr\<lparr>speaker := speaker prev\<rparr>]
         else word_speakers)"

function smooth_loop :: "nat \<Rightarrow> assigned list \<Rightarrow> assigned list" where
  "smooth_loop i word_speakers =
     (if i < length word_speakers
      then smooth_loop (Suc i) (smooth_step i word_speakers)
      else word_speakers)"
  by pat_completeness auto
termination
  by (relation "measure (\<lambda>(i, ws). length ws - i)") (auto simp: smooth_step_def Let_def)

declare smooth_loop.simps [simp del]

definition smooth_speakers :: "assigned list \<Rightarrow> assigned list" where
  "smooth_speakers word_speakers = smooth_loop 1 word_speakers"

section \<open>Utterance grouping\<close>

text \<open>Python's \<open>" ".join(words)\<close>.\<close>

fun join_sp :: "string list \<Rightarrow> string" where
  "join_sp [] = []"
| "join_sp [w] = w"
| "join_sp (w # v # ws) = w @ '' '' @ join_sp (v # ws)"

text \<open>
  The third loop of \<open>generate_transcript\<close>, on the state
  \<open>(final_transcript, current_speaker, current_sentence)\<close>.
\<close>

fun group_loop ::
  "'a spoken_scheme list \<Rightarrow> utterance list \<times> string option \<times> string list
     \<Rightarrow> utterance list \<times> string option \<times> string list" where
  "group_loop [] st = st"
| "group_loop (item # items) (final_transcript, current_speaker, current_sentence) =
     (if Some (speaker item) \<noteq> current_speaker
      then group_loop items
             (if current_speaker \<noteq> None
              then final_transcript @
                     [\<lparr>utt_speaker = current_speaker, utt_text = join_sp current_sentence\<rparr>]
              else final_transcript,
              Some (speaker item), [word item])
      else group_loop items
             (final_transcript, current_speaker, current_sentence @ [word item]))"

text \<open>The loop from the initial state, then the flush of a non-empty last sentence.\<close>

definition build_transcript :: "'a spoken_scheme list \<Rightarrow> utterance list" where
  "build_transcript word_speakers =
     (case group_loop word_speakers ([], None, []) of
        (final_transcript, current_speaker, current_sentence) \<Rightarrow>
          if current_sentence \<noteq> []
          then final_transcript @
                 [\<lparr>utt_speaker = current_speaker, utt_text = join_sp current_sentence\<rparr>]
          else final_transcript)"

section \<open>Notions used in the statements\<close>

text \<open>
  The smoothing loop seen from its result: the word before the current one is passed
  along already updated. \<open>smooth_speakers_Cons\<close> below shows that the index loop
  computes this.
\<close>

fun smooth_from :: "assigned \<Rightarrow> assigned list \<Rightarrow> assigned list" where
  "smooth_from prev [] = []"
| "smooth_from prev (cur # others) =
     (let cur' = (if w_start cur - w_end prev < 0.25 then cur\<lparr>speaker := speaker prev\<rparr> else cur)
      in cur' # smooth_from cur' others)"

text \<open>
  Python's \<open>s.split(" ")\<close>: the pieces of \<open>s\<close> between single spaces, empty
  pieces included; \<open>cur\<close> is the piece read so far.
\<close>

fun split_acc :: "string \<Rightarrow> string \<Rightarrow> string list" where
  "split_acc cur [] = [cur]"
| "split_acc cur (c # cs) =
     (if c = CHR '' '' then cur # split_acc [] cs else split_acc (cur @ [c]) cs)"

definition split_sp :: "string \<Rightarrow> string list" where
  "split_sp s = split_acc [] s"

text \<open>
  The maximal runs of consecutive words with one speaker label, each with its label:
  a run takes the words after its first one for as long as they carry the same speaker.
\<close>

function speaker_runs :: "'a spoken_scheme list \<Rightarrow> (string \<times> 'a spoken_scheme list) list" where
  "speaker_runs [] = []"
| "speaker_runs (x # xs) =
     (speaker x, x # takeWhile (\<lambda>y. speaker y = speaker x) xs)
       # speaker_runs (dropWhile (\<lambda>y. speaker y = speaker x) xs)"
  by pat_completeness auto
termination
  by (relation "measure length") (auto simp: le_imp_less_Suc length_dropWhile_le)

text \<open>The utterance of a run: its label and the space-join of its words.\<close>

definition utterance_of :: "string \<times> 'a spoken_scheme list \<Rightarrow> utterance" where
  "utterance_of r = \<lparr>utt_speaker = Some (fst r), utt_text = join_sp (map word (snd r))\<rparr>"

text \<open>
  The grouper's output read back as words: each utterance gives the words of its text,
  split at single spaces, and each of them carries the utterance's speaker. An utterance
  whose speaker is Python's \<open>None\<close> carries no label and gives no words.
\<close>

fun reexpress :: "utterance list \<Rightarrow> spoken list" where
  "reexpress [] = []"
| "reexpress (u # us) =
     (case utt_speaker u of
        None \<Rightarrow> []
      | Some sp \<Rightarrow> map (\<lambda>w. \<lparr>word = w, speaker = sp\<rparr>) (split_sp (utt_text u)))
     @ reexpress us"

text \<open>
  The grouping loop seen from its result, for a current speaker \<open>c\<close> and a sentence
  \<open>sent\<close> already begun: the utterances still to come, the flush after the loop
  included. \<open>group_loop_from\<close> below shows that the loop computes this.
\<close>

fun group_from :: "string \<Rightarrow> string list \<Rightarrow> 'a spoken_scheme list \<Rightarrow> utterance list" where
  "group_from c sent [] = [\<lparr>utt_speaker = Some c, utt_text = join_sp sent\<rparr>]"
| "group_from c sent (item # items) =
     (if speaker item \<noteq> c
      then \<lparr>utt_speaker = Some c, utt_text = join_sp sent\<rparr>
             # group_from (speaker item) [word item] items
      else group_from c (sent @ [word item]) items)"

section \<open>Segment filter: properties\<close>

lemma filter_short_segments_filter:
  "filter_short_segments segments threshold =
     filter (\<lambda>s. seg_end s - seg_start s \<ge> threshold) segments"
  by (induction segments) simp_all

text \<open>
  C7. The segment filter keeps exactly the segments with \<open>end - start >= threshold\<close>
  (0.3 by default): the output is the input with the shorter segments deleted, so it
  is a subsequence of the input, in the input's order, of unchanged segments, and the
  empty input gives the empty output.
\<close>

theorem filter_short_segments_keeps:
  "filter_short_segments segments threshold =
     filter (\<lambda>s. seg_end s - seg_start s \<ge> threshold) segments
   \<and> (s \<in> set (filter_short_segments segments threshold)
        \<longleftrightarrow> s \<in> set segments \<and> seg_end s - seg_start s \<ge> threshold)
   \<and> subseq (filter_short_segments segments threshold) segments
   \<and> filter_short_segments [] threshold = []
   \<and> filter_short_segments_default segments =
        filter (\<lambda>s. seg_end s - seg_start s \<ge> 0.3) segments"
  by (simp add: filter_short_segments_filter filter_short_segments_default_def)

section \<open>The two aligners agree\<close>

lemma exact_match_vt_eq: "exact_match_vt m segs = exact_match m segs"
  by (induction segs) simp_all

lemma seg_dist_vt_eq: "seg_dist_vt ws we seg = seg_dist ws we seg"
  by (simp add: seg_dist_vt_def seg_dist_def)

lemma closest_match_vt_eq: "closest_match_vt ws we segs st = closest_match ws we segs st"
  by (induction ws we segs st rule: closest_match.induct) (simp_all add: seg_dist_vt_eq Let_def)

text \<open>
  C9. \<open>get_speaker_for_word\<close> of video_transcriber.py and \<open>get_speaker_improved\<close> of
  transcript_gen_logic.py return the same label on every word interval and every
  segment list.
\<close>

theorem get_speaker_for_word_eq_improved:
  "get_speaker_for_word word_start word_end segments =
     get_speaker_improved word_start word_end segments"
  by (simp add: get_speaker_for_word_def get_speaker_improved_def
        exact_match_vt_eq closest_match_vt_eq split: option.splits)

section \<open>Smoothing: the loop and its result\<close>

lemma length_smooth_step [simp]: "length (smooth_step i ws) = length ws"
  by (simp add: smooth_step_def Let_def)

lemma length_smooth_from [simp]: "length (smooth_from p ws) = length ws"
  by (induction ws arbitrary: p) (simp_all add: Let_def)

lemma smooth_step_split:
  assumes "0 < i" "i < length ws"
  shows "smooth_step i ws = take i ws @
           (if w_start (ws ! i) - w_end (ws ! (i - 1)) < 0.25
            then (ws ! i)\<lparr>speaker := speaker (ws ! (i - 1))\<rparr> else ws ! i) # drop (Suc i) ws"
  using assms by (simp add: smooth_step_def Let_def upd_conv_take_nth_drop id_take_nth_drop [symmetric])

lemma smooth_loop_from:
  "0 < i \<Longrightarrow> i \<le> length ws \<Longrightarrow>
   smooth_loop i ws = take i ws @ smooth_from (ws ! (i - 1)) (drop i ws)"
proof (induction i ws rule: smooth_loop.induct)
  case (1 i ws)
  show ?case
  proof (cases "i < length ws")
    case False
    with "1.prems" show ?thesis by (simp add: smooth_loop.simps)
  next
    case True
    let ?c = "if w_start (ws ! i) - w_end (ws ! (i - 1)) < 0.25
            then (ws ! i)\<lparr>speaker := speaker (ws ! (i - 1))\<rparr> else ws ! i"
    have st: "smooth_step i ws = take i ws @ ?c # drop (Suc i) ws"
      using smooth_step_split [of i ws] "1.prems" True by simp
    have "smooth_loop i ws = smooth_loop (Suc i) (smooth_step i ws)"
      using True by (simp add: smooth_loop.simps [of i])
    also have "\<dots> = take (Suc i) (smooth_step i ws) @
        smooth_from (smooth_step i ws ! i) (drop (Suc i) (smooth_step i ws))"
      using "1.IH" [OF True] True by simp
    also have "take (Suc i) (smooth_step i ws) = take i ws @ [?c]"
      using True by (simp add: st)
    also have "smooth_step i ws ! i = ?c"
      using True by (simp add: st nth_append)
    also have "drop (Suc i) (smooth_step i ws) = drop (Suc i) ws"
      using True by (simp add: st)
    also have "(take i ws @ [?c]) @ smooth_from ?c (drop (Suc i) ws)
        = take i ws @ smooth_from (ws ! (i - 1)) (drop i ws)"
      using True by (simp add: Cons_nth_drop_Suc [symmetric] Let_def)
    finally show ?thesis .
  qed
qed

lemma smooth_speakers_Nil: "smooth_speakers [] = []"
  by (simp add: smooth_speakers_def smooth_loop.simps)

lemma smooth_speakers_Cons: "smooth_speakers (w # ws) = w # smooth_from w ws"
  using smooth_loop_from [of 1 "w # ws"] by (simp add: smooth_speakers_def)

lemma smooth_from_idem: "smooth_from p (smooth_from p ws) = smooth_from p ws"
  by (induction ws arbitrary: p) (simp_all add: Let_def)

lemma smooth_idem: "smooth_speakers (smooth_speakers ws) = smooth_speakers ws"
  by (cases ws) (simp_all add: smooth_speakers_Nil smooth_speakers_Cons smooth_from_idem)

lemma smooth_from_only_speaker:
  "i < length ws \<Longrightarrow> \<exists>sp. smooth_from p ws ! i = (ws ! i)\<lparr>speaker := sp\<rparr>"
proof (induction ws arbitrary: p i)
  case Nil
  then show ?case by simp
next
  case (Cons c ws)
  show ?case
  proof (cases i)
    case 0
    show ?thesis
    proof (cases "w_start c - w_end p < 0.25")
      case True
      then show ?thesis unfolding 0 by (intro exI [of _ "speaker p"]) (simp add: Let_def)
    next
      case False
      then show ?thesis unfolding 0 by (intro exI [of _ "speaker c"]) (simp add: Let_def)
    qed
  next
    case (Suc k)
    with Cons.prems have "k < length ws" by simp
    from Cons.IH [OF this] show ?thesis by (simp add: Suc Let_def)
  qed
qed

lemma smooth_from_step:
  "i < length ws \<Longrightarrow>
   speaker (smooth_from p ws ! i) =
     (if w_start (ws ! i) - w_end ((p # ws) ! i) < 0.25
      then speaker ((p # smooth_from p ws) ! i) else speaker (ws ! i))"
proof (induction ws arbitrary: p i)
  case Nil
  then show ?case by simp
next
  case (Cons c ws)
  show ?case
  proof (cases i)
    case 0
    then show ?thesis by (simp add: Let_def)
  next
    case (Suc k)
    with Cons.prems have k: "k < length ws" by simp
    let ?c = "if w_start c - w_end p < 0.25 then c\<lparr>speaker := speaker p\<rparr> else c"
    have e: "w_end ((?c # ws) ! k) = w_end ((c # ws) ! k)"
      by (cases k) simp_all
    show ?thesis
      using Cons.IH [OF k, of ?c] e by (simp add: Suc Let_def)
  qed
qed

lemma smooth_speakers_length: "length (smooth_speakers ws) = length ws"
  by (cases ws) (simp_all add: smooth_speakers_Nil smooth_speakers_Cons)

lemma smooth_speakers_only_speaker:
  "\<forall>i<length ws. smooth_speakers ws ! i = (ws ! i)\<lparr>speaker := speaker (smooth_speakers ws ! i)\<rparr>"
proof (intro allI impI)
  fix i assume i: "i < length ws"
  then obtain w rest where ws: "ws = w # rest" by (cases ws) auto
  have "\<exists>sp. smooth_speakers ws ! i = (ws ! i)\<lparr>speaker := sp\<rparr>"
  proof (cases i)
    case 0
    show ?thesis unfolding 0 ws smooth_speakers_Cons nth_Cons_0
      by (intro exI [of _ "speaker w"]) simp
  next
    case (Suc k)
    with i ws have "k < length rest" by simp
    from smooth_from_only_speaker [OF this, of w] show ?thesis
      by (simp add: ws Suc smooth_speakers_Cons)
  qed
  then obtain sp where sp: "smooth_speakers ws ! i = (ws ! i)\<lparr>speaker := sp\<rparr>" by blast
  then have "speaker (smooth_speakers ws ! i) = sp" by simp
  with sp show "smooth_speakers ws ! i = (ws ! i)\<lparr>speaker := speaker (smooth_speakers ws ! i)\<rparr>"
    by simp
qed

lemma smooth_speakers_first: "ws \<noteq> [] \<longrightarrow> smooth_speakers ws ! 0 = ws ! 0"
  by (cases ws) (simp_all add: smooth_speakers_Cons)

lemma smooth_speakers_step:
  "\<forall>i. 0 < i \<and> i < length ws \<longrightarrow>
     speaker (smooth_speakers ws ! i) =
       (if w_start (ws ! i) - w_end (ws ! (i - 1)) < 0.25
        then speaker (smooth_speakers ws ! (i - 1)) else speaker (ws ! i))"
proof (intro allI impI)
  fix i assume i: "0 < i \<and> i < length ws"
  then obtain w rest where ws: "ws = w # rest" by (cases ws) auto
  from i obtain k where k: "i = Suc k" by (cases i) auto
  with i ws have "k < length rest" by simp
  from smooth_from_step [OF this, of w]
  show "speaker (smooth_speakers ws ! i) =
       (if w_start (ws ! i) - w_end (ws ! (i - 1)) < 0.25
        then speaker (smooth_speakers ws ! (i - 1)) else speaker (ws ! i))"
    by (simp add: ws k smooth_speakers_Cons)
qed

lemma smooth_speakers_run:
  "\<forall>i j. i \<le> j \<and> j < length ws \<and>
       (\<forall>k. i < k \<and> k \<le> j \<longrightarrow> w_start (ws ! k) - w_end (ws ! (k - 1)) < 0.25) \<longrightarrow>
     speaker (smooth_speakers ws ! j) = speaker (smooth_speakers ws ! i)"
proof (intro allI impI)
  fix i j
  assume h: "i \<le> j \<and> j < length ws \<and>
       (\<forall>k. i < k \<and> k \<le> j \<longrightarrow> w_start (ws ! k) - w_end (ws ! (k - 1)) < 0.25)"
  have run: "\<And>m. i \<le> m \<Longrightarrow> m \<le> j \<Longrightarrow> speaker (smooth_speakers ws ! m) = speaker (smooth_speakers ws ! i)"
  proof -
    fix m show "i \<le> m \<Longrightarrow> m \<le> j \<Longrightarrow> speaker (smooth_speakers ws ! m) = speaker (smooth_speakers ws ! i)"
    proof (induction m)
      case 0
      then show ?case by simp
    next
      case (Suc m)
      show ?case
      proof (cases "i = Suc m")
        case True
        then show ?thesis by simp
      next
        case False
        with Suc.prems have im: "i \<le> m" "m \<le> j" "i < Suc m" by simp_all
        from h have "i < Suc m \<and> Suc m \<le> j \<longrightarrow>
            w_start (ws ! Suc m) - w_end (ws ! (Suc m - 1)) < 0.25"
          by (elim conjE) (erule spec)
        with im Suc.prems have g: "w_start (ws ! Suc m) - w_end (ws ! m) < 0.25"
          by simp
        have r: "0 < Suc m \<and> Suc m < length ws" using h Suc.prems by simp
        from smooth_speakers_step [of ws] have "0 < Suc m \<and> Suc m < length ws \<longrightarrow>
            speaker (smooth_speakers ws ! Suc m) =
              (if w_start (ws ! Suc m) - w_end (ws ! (Suc m - 1)) < 0.25
               then speaker (smooth_speakers ws ! (Suc m - 1)) else speaker (ws ! Suc m))"
          by (rule spec)
        with r g have "speaker (smooth_speakers ws ! Suc m) = speaker (smooth_speakers ws ! m)"
          by simp
        with Suc.IH [OF im(1) im(2)] show ?thesis by simp
      qed
    qed
  qed
  from h have "i \<le> j" by (elim conjE)
  then show "speaker (smooth_speakers ws ! j) = speaker (smooth_speakers ws ! i)"
    by (rule run) (rule order_refl)
qed

lemma smooth_speakers_run_first:
  "\<forall>i j. i \<le> j \<and> j < length ws \<and>
       (i = 0 \<or> w_start (ws ! i) - w_end (ws ! (i - 1)) \<ge> 0.25) \<and>
       (\<forall>k. i < k \<and> k \<le> j \<longrightarrow> w_start (ws ! k) - w_end (ws ! (k - 1)) < 0.25) \<longrightarrow>
     speaker (smooth_speakers ws ! j) = speaker (ws ! i)"
proof (intro allI impI)
  fix i j
  assume h: "i \<le> j \<and> j < length ws \<and>
       (i = 0 \<or> w_start (ws ! i) - w_end (ws ! (i - 1)) \<ge> 0.25) \<and>
       (\<forall>k. i < k \<and> k \<le> j \<longrightarrow> w_start (ws ! k) - w_end (ws ! (k - 1)) < 0.25)"
  then have a: "speaker (smooth_speakers ws ! j) = speaker (smooth_speakers ws ! i)"
    using smooth_speakers_run [of ws] by blast
  have "speaker (smooth_speakers ws ! i) = speaker (ws ! i)"
  proof (cases "i = 0")
    case True
    with h have "ws \<noteq> []" by auto
    with smooth_speakers_first [of ws] True show ?thesis by simp
  next
    case False
    with h have "0 < i \<and> i < length ws" "\<not> w_start (ws ! i) - w_end (ws ! (i - 1)) < 0.25" by auto
    with smooth_speakers_step [of ws] show ?thesis by simp
  qed
  with a show "speaker (smooth_speakers ws ! j) = speaker (ws ! i)" by simp
qed

section \<open>Aligner: exact pass and nearest segment\<close>


lemma exact_match_first:
  "(\<forall>x\<in>set pre. \<not> (seg_start x \<le> m \<and> m \<le> seg_end x)) \<Longrightarrow>
   seg_start s \<le> m \<and> m \<le> seg_end s \<Longrightarrow>
   exact_match m (pre @ s # post) = Some (seg_speaker s)"
  by (induction pre) auto

lemma exact_match_in_set:
  "exact_match m segs = Some sp \<Longrightarrow> sp \<in> seg_speaker ` set segs"
  by (induction segs) (auto split: if_splits)

lemma closest_match_Some:
  "closest_match ws we segs (sp, Some m) = (sp', md') \<Longrightarrow>
   (sp' = sp \<and> md' = Some m \<and> (\<forall>x\<in>set segs. m \<le> seg_dist ws we x))
   \<or> (\<exists>pre s post. segs = pre @ s # post \<and> sp' = seg_speaker s
         \<and> md' = Some (seg_dist ws we s) \<and> seg_dist ws we s < m
         \<and> (\<forall>x\<in>set pre. seg_dist ws we s < seg_dist ws we x)
         \<and> (\<forall>x\<in>set post. seg_dist ws we s \<le> seg_dist ws we x))"
proof (induction segs arbitrary: sp m)
  case Nil
  then show ?case by simp
next
  case (Cons seg segs)
  let ?d = "seg_dist ws we seg"
  show ?case
  proof (cases "?d < m")
    case True
    with Cons.prems have "closest_match ws we segs (seg_speaker seg, Some ?d) = (sp', md')"
      by (simp add: Let_def)
    from Cons.IH [OF this] show ?thesis
    proof (elim disjE exE conjE)
      assume a: "sp' = seg_speaker seg" "md' = Some ?d" "\<forall>x\<in>set segs. ?d \<le> seg_dist ws we x"
      have "seg # segs = [] @ seg # segs" by simp
      with a True show ?thesis by (intro disjI2 exI [of _ "[]"] exI [of _ seg] exI [of _ segs]) simp
    next
      fix pre s post
      assume a: "segs = pre @ s # post" "sp' = seg_speaker s" "md' = Some (seg_dist ws we s)"
        "seg_dist ws we s < ?d"
        "\<forall>x\<in>set pre. seg_dist ws we s < seg_dist ws we x"
        "\<forall>x\<in>set post. seg_dist ws we s \<le> seg_dist ws we x"
      with True show ?thesis
        by (intro disjI2 exI [of _ "seg # pre"] exI [of _ s] exI [of _ post]) simp
    qed
  next
    case False
    with Cons.prems have "closest_match ws we segs (sp, Some m) = (sp', md')"
      by (simp add: Let_def)
    from Cons.IH [OF this] show ?thesis
    proof (elim disjE exE conjE)
      assume a: "sp' = sp" "md' = Some m" "\<forall>x\<in>set segs. m \<le> seg_dist ws we x"
      with False show ?thesis by (intro disjI1) simp
    next
      fix pre s post
      assume a: "segs = pre @ s # post" "sp' = seg_speaker s" "md' = Some (seg_dist ws we s)"
        "seg_dist ws we s < m"
        "\<forall>x\<in>set pre. seg_dist ws we s < seg_dist ws we x"
        "\<forall>x\<in>set post. seg_dist ws we s \<le> seg_dist ws we x"
      with False show ?thesis
        by (intro disjI2 exI [of _ "seg # pre"] exI [of _ s] exI [of _ post]) simp
    qed
  qed
qed

lemma closest_match_first_min:
  assumes "segs \<noteq> []"
  shows "\<exists>pre s post. segs = pre @ s # post
           \<and> fst (closest_match ws we segs (sp, None)) = seg_speaker s
           \<and> (\<forall>x\<in>set pre. seg_dist ws we s < seg_dist ws we x)
           \<and> (\<forall>x\<in>set post. seg_dist ws we s \<le> seg_dist ws we x)"
proof -
  from assms obtain seg rest where segs: "segs = seg # rest" by (cases segs) auto
  let ?d = "seg_dist ws we seg"
  obtain sp' md' where r: "closest_match ws we rest (seg_speaker seg, Some ?d) = (sp', md')"
    by (cases "closest_match ws we rest (seg_speaker seg, Some ?d)") auto
  then have f: "fst (closest_match ws we segs (sp, None)) = sp'"
    by (simp add: segs Let_def)
  from closest_match_Some [OF r] show ?thesis
  proof (elim disjE exE conjE)
    assume a: "sp' = seg_speaker seg" "\<forall>x\<in>set rest. ?d \<le> seg_dist ws we x"
    show ?thesis unfolding f
      using a by (intro exI [of _ "[]"] exI [of _ seg] exI [of _ rest]) (simp add: segs)
  next
    fix pre s post
    assume a: "rest = pre @ s # post" "sp' = seg_speaker s" "seg_dist ws we s < ?d"
        "\<forall>x\<in>set pre. seg_dist ws we s < seg_dist ws we x"
        "\<forall>x\<in>set post. seg_dist ws we s \<le> seg_dist ws we x"
    show ?thesis unfolding f
      using a by (intro exI [of _ "seg # pre"] exI [of _ s] exI [of _ post]) (simp add: segs)
  qed
qed

lemma get_improved_no_exact:
  "exact_match ((ws + we) / 2) segs = None \<Longrightarrow>
   get_speaker_improved ws we segs = fst (closest_match ws we segs (''Unknown'', None))"
  by (simp add: get_speaker_improved_def)

lemma get_improved_exact:
  "exact_match ((ws + we) / 2) segs = Some sp \<Longrightarrow> get_speaker_improved ws we segs = sp"
  by (simp add: get_speaker_improved_def)

lemma get_improved_in_speakers:
  assumes "segs \<noteq> []"
  shows "get_speaker_improved ws we segs \<in> seg_speaker ` set segs"
proof (cases "exact_match ((ws + we) / 2) segs")
  case None
  from closest_match_first_min [OF assms, of ws we "''Unknown''"]
  obtain pre s post where "segs = pre @ s # post"
    "fst (closest_match ws we segs (''Unknown'', None)) = seg_speaker s" by blast
  then show ?thesis unfolding get_improved_no_exact [OF None] by simp
next
  case (Some sp)
  then show ?thesis unfolding get_improved_exact [OF Some] by (rule exact_match_in_set)
qed

lemma get_improved_Nil: "get_speaker_improved ws we [] = ''Unknown''"
  by (simp add: get_speaker_improved_def)

lemma exact_match_first_decomp:
  assumes "\<exists>s\<in>set segments. seg_start s \<le> (word_start + word_end) / 2
                          \<and> (word_start + word_end) / 2 \<le> seg_end s"
  shows "\<exists>pre s post. segments = pre @ s # post
           \<and> (\<forall>x\<in>set pre. \<not> (seg_start x \<le> (word_start + word_end) / 2
                                  \<and> (word_start + word_end) / 2 \<le> seg_end x))
           \<and> seg_start s \<le> (word_start + word_end) / 2
           \<and> (word_start + word_end) / 2 \<le> seg_end s
           \<and> get_speaker_improved word_start word_end segments = seg_speaker s"
proof -
  let ?m = "(word_start + word_end) / 2"
  from split_list_first_prop [OF assms]
  obtain pre s post where d: "segments = pre @ s # post"
    "seg_start s \<le> ?m \<and> ?m \<le> seg_end s"
    "\<forall>x\<in>set pre. \<not> (seg_start x \<le> ?m \<and> ?m \<le> seg_end x)" by blast
  from exact_match_first [OF d(3) d(2), of post]
  have "get_speaker_improved word_start word_end segments = seg_speaker s"
    unfolding d(1) by (rule get_improved_exact)
  with d show ?thesis by blast
qed



section \<open>Grouping: joins, splits and runs\<close>

lemma join_sp_Cons: "join_sp (w # ws) = (if ws = [] then w else w @ '' '' @ join_sp ws)"
  by (cases ws) simp_all

lemma join_sp_append:
  "xs \<noteq> [] \<Longrightarrow> ys \<noteq> [] \<Longrightarrow> join_sp (xs @ ys) = join_sp xs @ '' '' @ join_sp ys"
  by (induction xs) (simp_all add: join_sp_Cons)

lemma split_acc_not_Nil: "split_acc cur s \<noteq> []"
  by (induction s arbitrary: cur) simp_all

lemma join_split_acc: "join_sp (split_acc cur s) = cur @ s"
  by (induction s arbitrary: cur) (simp_all add: join_sp_Cons split_acc_not_Nil)

lemma join_split_sp: "join_sp (split_sp s) = s"
  by (simp add: split_sp_def join_split_acc)

lemma split_sp_not_Nil: "split_sp s \<noteq> []"
  by (simp add: split_sp_def split_acc_not_Nil)

lemma split_acc_no_space:
  "CHR '' '' \<notin> set w \<Longrightarrow> split_acc cur (w @ s) = split_acc (cur @ w) s"
  by (induction w arbitrary: cur) auto

lemma split_acc_join:
  "\<forall>w\<in>set (w0 # ws). CHR '' '' \<notin> set w \<Longrightarrow>
   split_acc cur (join_sp (w0 # ws)) = (cur @ w0) # ws"
proof (induction ws arbitrary: w0 cur)
  case Nil
  then have "split_acc cur (w0 @ []) = split_acc (cur @ w0) []"
    by (intro split_acc_no_space) simp
  then show ?case by simp
next
  case (Cons v vs)
  from Cons.prems have w0: "CHR '' '' \<notin> set w0" and r: "\<forall>w\<in>set (v # vs). CHR '' '' \<notin> set w"
    by simp_all
  have "split_acc cur (join_sp (w0 # v # vs)) = split_acc (cur @ w0) (CHR '' '' # join_sp (v # vs))"
    using split_acc_no_space [OF w0, of cur "CHR '' '' # join_sp (v # vs)"] by simp
  also have "\<dots> = (cur @ w0) # split_acc [] (join_sp (v # vs))" by simp
  also have "split_acc [] (join_sp (v # vs)) = v # vs"
    using Cons.IH [OF r, of "[]"] by simp
  finally show ?case .
qed

lemma split_sp_join:
  "ws \<noteq> [] \<Longrightarrow> \<forall>w\<in>set ws. CHR '' '' \<notin> set w \<Longrightarrow> split_sp (join_sp ws) = ws"
  using split_acc_join [of "hd ws" "tl ws" "[]"] by (cases ws) (simp_all add: split_sp_def)

lemma group_loop_from:
  "sent \<noteq> [] \<Longrightarrow>
   (case group_loop items (ft, Some c, sent) of
      (final_transcript, current_speaker, current_sentence) \<Rightarrow>
        if current_sentence \<noteq> []
        then final_transcript @
               [\<lparr>utt_speaker = current_speaker, utt_text = join_sp current_sentence\<rparr>]
        else final_transcript)
   = ft @ group_from c sent items"
  by (induction items arbitrary: ft c sent) simp_all

lemma build_transcript_Nil: "build_transcript [] = []"
  by (simp add: build_transcript_def)

lemma build_transcript_Cons:
  "build_transcript (x # xs) = group_from (speaker x) [word x] xs"
  using group_loop_from [of "[word x]" xs "[]" "speaker x"]
  by (simp add: build_transcript_def)

lemma group_from_runs:
  "sent \<noteq> [] \<Longrightarrow>
   group_from c sent items =
     \<lparr>utt_speaker = Some c,
      utt_text = join_sp (sent @ map word (takeWhile (\<lambda>y. speaker y = c) items))\<rparr>
     # map utterance_of (speaker_runs (dropWhile (\<lambda>y. speaker y = c) items))"
proof (induction items arbitrary: c sent)
  case Nil
  then show ?case by simp
next
  case (Cons item items)
  show ?case
  proof (cases "speaker item = c")
    case True
    with Cons.IH [of "sent @ [word item]" c] show ?thesis by simp
  next
    case False
    with Cons.IH [of "[word item]" "speaker item"] show ?thesis
      by (simp add: utterance_of_def)
  qed
qed

lemma build_transcript_runs: "build_transcript ws = map utterance_of (speaker_runs ws)"
proof (cases ws)
  case Nil
  then show ?thesis by (simp add: build_transcript_Nil)
next
  case (Cons x xs)
  show ?thesis unfolding Cons build_transcript_Cons
    using group_from_runs [of "[word x]" "speaker x" xs] by (simp add: utterance_of_def)
qed

lemma concat_speaker_runs: "concat (map snd (speaker_runs ws)) = ws"
  by (induction ws rule: speaker_runs.induct) simp_all

lemma speaker_runs_mono:
  "\<forall>r\<in>set (speaker_runs ws). snd r \<noteq> [] \<and> (\<forall>x\<in>set (snd r). speaker x = fst r)"
proof (induction ws rule: speaker_runs.induct)
  case 1
  show ?case by simp
next
  case (2 x xs)
  have tw: "\<And>y. y \<in> set (takeWhile (\<lambda>y. speaker y = speaker x) xs) \<Longrightarrow> speaker y = speaker x"
    by (drule set_takeWhileD) (erule conjE)
  show ?case
  proof
    fix r assume "r \<in> set (speaker_runs (x # xs))"
    then consider "r = (speaker x, x # takeWhile (\<lambda>y. speaker y = speaker x) xs)"
      | "r \<in> set (speaker_runs (dropWhile (\<lambda>y. speaker y = speaker x) xs))"
      by auto
    then show "snd r \<noteq> [] \<and> (\<forall>x\<in>set (snd r). speaker x = fst r)"
    proof cases
      case 1
      have f: "fst r = speaker x"
        and s: "set (snd r) = insert x (set (takeWhile (\<lambda>y. speaker y = speaker x) xs))"
        and n: "snd r \<noteq> []"
        by (simp_all add: 1)
      show ?thesis unfolding f s using n tw by blast
    next
      case 2
      with "2.IH" show ?thesis by blast
    qed
  qed
qed

lemma speaker_runs_labels: "map fst (speaker_runs ws) = remdups_adj (map speaker ws)"
proof (induction ws rule: speaker_runs.induct)
  case 1
  then show ?case by simp
next
  case (2 x xs)
  then show ?case by (simp add: remdups_adj_Cons' dropWhile_map comp_def)
qed

lemma speaker_runs_distinct_adj: "distinct_adj (map fst (speaker_runs ws))"
  by (simp add: speaker_runs_labels)

lemma build_transcript_speakers:
  "map utt_speaker (build_transcript ws) = map Some (remdups_adj (map speaker ws))"
proof -
  have "map utt_speaker (build_transcript ws) = map Some (map fst (speaker_runs ws))"
    by (simp add: build_transcript_runs utterance_of_def comp_def)
  then show ?thesis by (simp only: speaker_runs_labels)
qed

lemma build_transcript_distinct_adj: "distinct_adj (map utt_speaker (build_transcript ws))"
  unfolding build_transcript_speakers by (simp add: distinct_adj_map_iff)

lemma lossless_split:
  assumes "\<forall>w\<in>set ws. CHR '' '' \<notin> set (word w)"
  shows "concat (map (\<lambda>u. split_sp (utt_text u)) (build_transcript ws)) = map word ws"
proof -
  have "\<forall>r\<in>set (speaker_runs ws). split_sp (join_sp (map word (snd r))) = map word (snd r)"
  proof
    fix r assume r: "r \<in> set (speaker_runs ws)"
    with speaker_runs_mono [of ws] have ne: "map word (snd r) \<noteq> []" by simp
    from r have "set (snd r) \<subseteq> set (concat (map snd (speaker_runs ws)))" by auto
    with assms have "\<forall>w\<in>set (map word (snd r)). CHR '' '' \<notin> set w"
      unfolding concat_speaker_runs by auto
    with ne show "split_sp (join_sp (map word (snd r))) = map word (snd r)"
      by (rule split_sp_join)
  qed
  then have "concat (map (\<lambda>u. split_sp (utt_text u)) (build_transcript ws))
      = concat (map (\<lambda>r. map word (snd r)) (speaker_runs ws))"
    by (simp add: build_transcript_runs utterance_of_def comp_def cong: map_cong)
  also have "\<dots> = map word (concat (map snd (speaker_runs ws)))"
    by (simp add: map_concat comp_def)
  finally show ?thesis by (simp only: concat_speaker_runs)
qed

lemma group_from_not_Nil: "group_from c sent items \<noteq> []"
  by (induction items arbitrary: c sent) simp_all

lemma group_from_join:
  "sent \<noteq> [] \<Longrightarrow>
   join_sp (map utt_text (group_from c sent items)) = join_sp (sent @ map word items)"
proof (induction items arbitrary: c sent)
  case Nil
  then show ?case by simp
next
  case (Cons item items)
  show ?case
  proof (cases "speaker item = c")
    case True
    with Cons.IH [of "sent @ [word item]" c] show ?thesis by simp
  next
    case False
    have g: "group_from (speaker item) [word item] items \<noteq> []"
      by (rule group_from_not_Nil)
    from False Cons.IH [of "[word item]" "speaker item"] Cons.prems g show ?thesis
      by (simp add: join_sp_Cons join_sp_append [of sent "word item # map word items"])
  qed
qed

lemma lossless_join: "join_sp (map utt_text (build_transcript ws)) = join_sp (map word ws)"
  by (cases ws) (simp_all add: build_transcript_Nil build_transcript_Cons group_from_join)

lemma group_from_same:
  "group_from c sent (map (\<lambda>w. \<lparr>word = w, speaker = c\<rparr>) ps @ items) =
     group_from c (sent @ ps) items"
  by (induction ps arbitrary: sent) simp_all

lemma group_from_reexpress:
  "sent \<noteq> [] \<Longrightarrow> \<forall>u\<in>set us. utt_speaker u \<noteq> None \<Longrightarrow>
   distinct_adj (Some c # map utt_speaker us) \<Longrightarrow>
   group_from c sent (reexpress us) = \<lparr>utt_speaker = Some c, utt_text = join_sp sent\<rparr> # us"
proof (induction us arbitrary: c sent)
  case Nil
  then show ?case by simp
next
  case (Cons u us)
  from Cons.prems obtain c' where c': "utt_speaker u = Some c'" by auto
  from Cons.prems c' have ne: "c' \<noteq> c" and da: "distinct_adj (Some c' # map utt_speaker us)"
    by auto
  obtain p ps where sp: "split_sp (utt_text u) = p # ps"
    using split_sp_not_Nil [of "utt_text u"] by (cases "split_sp (utt_text u)") auto
  have "group_from c sent (reexpress (u # us)) =
      \<lparr>utt_speaker = Some c, utt_text = join_sp sent\<rparr>
        # group_from c' [p] (map (\<lambda>w. \<lparr>word = w, speaker = c'\<rparr>) ps @ reexpress us)"
    using ne by (simp add: c' sp)
  also have "group_from c' [p] (map (\<lambda>w. \<lparr>word = w, speaker = c'\<rparr>) ps @ reexpress us)
      = group_from c' (p # ps) (reexpress us)"
    by (simp add: group_from_same)
  also have "\<dots> = \<lparr>utt_speaker = Some c', utt_text = join_sp (p # ps)\<rparr> # us"
    using Cons.IH [of "p # ps" c'] Cons.prems(2) da by simp
  also have "join_sp (p # ps) = utt_text u"
    using join_split_sp [of "utt_text u"] by (simp only: sp)
  also have "\<lparr>utt_speaker = Some c', utt_text = utt_text u\<rparr> = u"
    using c' by simp
  finally show ?case .
qed

lemma build_reexpress:
  assumes "\<forall>u\<in>set us. utt_speaker u \<noteq> None" "distinct_adj (map utt_speaker us)"
  shows "build_transcript (reexpress us) = us"
proof (cases us)
  case Nil
  then show ?thesis by (simp add: build_transcript_Nil)
next
  case (Cons u rest)
  with assms obtain c' where c': "utt_speaker u = Some c'" by auto
  obtain p ps where sp: "split_sp (utt_text u) = p # ps"
    using split_sp_not_Nil [of "utt_text u"] by (cases "split_sp (utt_text u)") auto
  from assms Cons c' have r: "\<forall>u\<in>set rest. utt_speaker u \<noteq> None"
    "distinct_adj (Some c' # map utt_speaker rest)" by simp_all
  have "build_transcript (reexpress us) =
      group_from c' [p] (map (\<lambda>w. \<lparr>word = w, speaker = c'\<rparr>) ps @ reexpress rest)"
    by (simp add: Cons c' sp build_transcript_Cons)
  also have "\<dots> = group_from c' (p # ps) (reexpress rest)"
    by (simp add: group_from_same)
  also have "\<dots> = \<lparr>utt_speaker = Some c', utt_text = join_sp (p # ps)\<rparr> # rest"
    using group_from_reexpress [of "p # ps" rest c'] r by simp
  also have "join_sp (p # ps) = utt_text u"
    using join_split_sp [of "utt_text u"] by (simp only: sp)
  also have "\<lparr>utt_speaker = Some c', utt_text = utt_text u\<rparr> = u"
    using c' by simp
  finally show ?thesis by (simp add: Cons)
qed

lemma build_transcript_Some: "\<forall>u\<in>set (build_transcript ws). utt_speaker u \<noteq> None"
  by (simp add: build_transcript_runs utterance_of_def)

lemma build_idem: "build_transcript (reexpress (build_transcript ws)) = build_transcript ws"
  by (rule build_reexpress [OF build_transcript_Some build_transcript_distinct_adj])

lemma reexpress_concat:
  "reexpress us = concat (map (\<lambda>u. case utt_speaker u of
        None \<Rightarrow> []
      | Some sp \<Rightarrow> map (\<lambda>w. \<lparr>word = w, speaker = sp\<rparr>) (split_sp (utt_text u))) us)"
  by (induction us) simp_all

lemma reexpress_original:
  assumes "\<forall>w\<in>set ws. CHR '' '' \<notin> set (word w)"
  shows "reexpress (build_transcript ws) = map (\<lambda>w. \<lparr>word = word w, speaker = speaker w\<rparr>) ws"
proof -
  have "\<forall>r\<in>set (speaker_runs ws).
      map (\<lambda>w. \<lparr>word = w, speaker = fst r\<rparr>) (split_sp (join_sp (map word (snd r))))
      = map (\<lambda>w. \<lparr>word = word w, speaker = speaker w\<rparr>) (snd r)"
  proof
    fix r assume r: "r \<in> set (speaker_runs ws)"
    with speaker_runs_mono [of ws] have ne: "map word (snd r) \<noteq> []"
      and sp: "\<forall>x\<in>set (snd r). speaker x = fst r" by simp_all
    from r have "set (snd r) \<subseteq> set (concat (map snd (speaker_runs ws)))" by auto
    with assms have "\<forall>w\<in>set (map word (snd r)). CHR '' '' \<notin> set w"
      unfolding concat_speaker_runs by auto
    with ne have "split_sp (join_sp (map word (snd r))) = map word (snd r)"
      by (rule split_sp_join)
    then show "map (\<lambda>w. \<lparr>word = w, speaker = fst r\<rparr>) (split_sp (join_sp (map word (snd r))))
      = map (\<lambda>w. \<lparr>word = word w, speaker = speaker w\<rparr>) (snd r)"
      using sp by simp
  qed
  then have "reexpress (build_transcript ws)
      = concat (map (\<lambda>r. map (\<lambda>w. \<lparr>word = word w, speaker = speaker w\<rparr>) (snd r)) (speaker_runs ws))"
    by (simp add: reexpress_concat build_transcript_runs utterance_of_def comp_def cong: map_cong)
  also have "\<dots> = map (\<lambda>w. \<lparr>word = word w, speaker = speaker w\<rparr>) (concat (map snd (speaker_runs ws)))"
    by (simp add: map_concat comp_def)
  finally show ?thesis by (simp only: concat_speaker_runs)
qed

lemma assign_word_Inr:
  "wd_word wd = Some w \<Longrightarrow>
   assign_word segs wd =
     Inr \<lparr>word = w,
          speaker = get_speaker_improved
            (dict_get (wd_start wd) (dict_get (wd_start_offset wd) 0))
            (dict_get (wd_end wd) (dict_get (wd_end_offset wd) 0)) segs,
          w_start = dict_get (wd_start wd) (dict_get (wd_start_offset wd) 0),
          w_end = dict_get (wd_end wd) (dict_get (wd_end_offset wd) 0)\<rparr>"
  by (simp add: assign_word_def Let_def)

lemma dict_get_case: "dict_get x d = (case x of Some v \<Rightarrow> v | None \<Rightarrow> d)"
  by (cases x) simp_all

section \<open>Claims\<close>

lemma smooth_from_w_start: "map w_start (smooth_from p ws) = map w_start ws"
  by (induction ws arbitrary: p) (simp_all add: Let_def)

lemma smooth_from_w_end: "map w_end (smooth_from p ws) = map w_end ws"
  by (induction ws arbitrary: p) (simp_all add: Let_def)

lemma smooth_speakers_w_start: "map w_start (smooth_speakers ws) = map w_start ws"
  by (cases ws) (simp_all add: smooth_speakers_Nil smooth_speakers_Cons smooth_from_w_start)

lemma smooth_speakers_w_end: "map w_end (smooth_speakers ws) = map w_end ws"
  by (cases ws) (simp_all add: smooth_speakers_Nil smooth_speakers_Cons smooth_from_w_end)

lemma smooth_speakers_three_free:
  "w_start b - w_end a = 0.1 \<and> w_start c - w_end b = 0.1 \<longrightarrow>
     map speaker (smooth_speakers [a, b, c]) = [speaker a, speaker a, speaker a]"
  by (simp add: smooth_speakers_Cons Let_def)

lemma smooth_speakers_adjacent:
  "\<forall>i. 0 < i \<and> i < length ws \<and> w_start (ws ! i) - w_end (ws ! (i - 1)) < 0.25 \<longrightarrow>
     speaker (smooth_speakers ws ! i) = speaker (smooth_speakers ws ! (i - 1))"
  using smooth_speakers_step [of ws] by simp

lemma runs_reexpress_id:
  "concat (map (\<lambda>r. map (\<lambda>x. x\<lparr>speaker := fst r\<rparr>) (snd r)) (speaker_runs ws)) = ws"
proof -
  have "\<forall>r\<in>set (speaker_runs ws). map (\<lambda>x. x\<lparr>speaker := fst r\<rparr>) (snd r) = snd r"
  proof
    fix r assume "r \<in> set (speaker_runs ws)"
    with speaker_runs_mono [of ws] have "\<forall>x\<in>set (snd r). speaker x = fst r" by simp
    then have "\<forall>x\<in>set (snd r). x\<lparr>speaker := fst r\<rparr> = x" by auto
    then show "map (\<lambda>x. x\<lparr>speaker := fst r\<rparr>) (snd r) = snd r" by (simp add: map_idI)
  qed
  then have "concat (map (\<lambda>r. map (\<lambda>x. x\<lparr>speaker := fst r\<rparr>) (snd r)) (speaker_runs ws))
      = concat (map snd (speaker_runs ws))"
    by (simp cong: map_cong)
  then show ?thesis by (simp only: concat_speaker_runs)
qed

text \<open>
  C1. Smoothing is one forward sweep with propagation. The list keeps its length and
  only speakers change; the word at index 0 is never modified; at every index
  \<open>i \<ge> 1\<close> the smoothed speaker is the already smoothed speaker of the word before
  when the gap \<open>start[i] - end[i-1]\<close> is below 0.25 (negative gaps included), and
  the original speaker otherwise. Hence a run of words whose consecutive gaps are all
  below the threshold carries one speaker, the original speaker of the run's first
  word when the run starts at index 0 or after a gap of at least 0.25. In particular
  three words with gaps 0.1 and 0.1 all end with the first word's speaker.
\<close>

theorem smooth_speakers_forward_sweep:
  "length (smooth_speakers ws) = length ws
   \<and> (\<forall>i<length ws.
        smooth_speakers ws ! i = (ws ! i)\<lparr>speaker := speaker (smooth_speakers ws ! i)\<rparr>)
   \<and> (ws \<noteq> [] \<longrightarrow> smooth_speakers ws ! 0 = ws ! 0)
   \<and> (\<forall>i. 0 < i \<and> i < length ws \<longrightarrow>
        speaker (smooth_speakers ws ! i) =
          (if w_start (ws ! i) - w_end (ws ! (i - 1)) < 0.25
           then speaker (smooth_speakers ws ! (i - 1)) else speaker (ws ! i)))
   \<and> (\<forall>i j. i \<le> j \<and> j < length ws \<and>
          (\<forall>k. i < k \<and> k \<le> j \<longrightarrow> w_start (ws ! k) - w_end (ws ! (k - 1)) < 0.25) \<longrightarrow>
        speaker (smooth_speakers ws ! j) = speaker (smooth_speakers ws ! i))
   \<and> (\<forall>i j. i \<le> j \<and> j < length ws \<and>
          (i = 0 \<or> w_start (ws ! i) - w_end (ws ! (i - 1)) \<ge> 0.25) \<and>
          (\<forall>k. i < k \<and> k \<le> j \<longrightarrow> w_start (ws ! k) - w_end (ws ! (k - 1)) < 0.25) \<longrightarrow>
        speaker (smooth_speakers ws ! j) = speaker (ws ! i))
   \<and> (w_start b - w_end a = 0.1 \<and> w_start c - w_end b = 0.1 \<longrightarrow>
        map speaker (smooth_speakers [a, b, c]) = [speaker a, speaker a, speaker a])"
  by (intro conjI)
     (rule smooth_speakers_length smooth_speakers_only_speaker smooth_speakers_first
        smooth_speakers_step smooth_speakers_run smooth_speakers_run_first
        smooth_speakers_three_free)+

theorem smooth_speakers_forward_sweep_witness:
  "map speaker (smooth_speakers
      [\<lparr>word = ''a'', speaker = ''A'', w_start = 0, w_end = 0.5\<rparr>,
       \<lparr>word = ''b'', speaker = ''B'', w_start = 0.6, w_end = 1\<rparr>,
       \<lparr>word = ''c'', speaker = ''C'', w_start = 1.1, w_end = 1.5\<rparr>]) = [''A'', ''A'', ''A'']
   \<and> speaker (smooth_speakers
      [\<lparr>word = ''a'', speaker = ''A'', w_start = 0, w_end = 0.5\<rparr>,
       \<lparr>word = ''b'', speaker = ''B'', w_start = 0.6, w_end = 1\<rparr>,
       \<lparr>word = ''c'', speaker = ''C'', w_start = 1.1, w_end = 1.5\<rparr>] ! 2) = ''A''"
proof -
  let ?a = "\<lparr>word = ''a'', speaker = ''A'', w_start = 0, w_end = 0.5\<rparr>"
  let ?b = "\<lparr>word = ''b'', speaker = ''B'', w_start = 0.6, w_end = 1\<rparr>"
  let ?c = "\<lparr>word = ''c'', speaker = ''C'', w_start = 1.1, w_end = 1.5\<rparr>"
  let ?W = "[?a, ?b, ?c]"
  note t = smooth_speakers_forward_sweep [where ws = ?W and a = ?a and b = ?b and c = ?c]
  have g: "w_start ?b - w_end ?a = 0.1 \<and> w_start ?c - w_end ?b = 0.1" by simp
  from t g have three: "map speaker (smooth_speakers ?W) = [speaker ?a, speaker ?a, speaker ?a]"
    by blast
  have gaps: "\<forall>k. 0 < k \<and> k \<le> 2 \<longrightarrow> w_start (?W ! k) - w_end (?W ! (k - 1)) < 0.25"
  proof (intro allI impI)
    fix k :: nat assume "0 < k \<and> k \<le> 2"
    then have "k = 1 \<or> k = 2" by arith
    then show "w_start (?W ! k) - w_end (?W ! (k - 1)) < 0.25" by (elim disjE) simp_all
  qed
  from t have "\<forall>i j. i \<le> j \<and> j < length ?W \<and>
          (i = 0 \<or> w_start (?W ! i) - w_end (?W ! (i - 1)) \<ge> 0.25) \<and>
          (\<forall>k. i < k \<and> k \<le> j \<longrightarrow> w_start (?W ! k) - w_end (?W ! (k - 1)) < 0.25) \<longrightarrow>
        speaker (smooth_speakers ?W ! j) = speaker (?W ! i)" by (elim conjE)
  then have "(0::nat) \<le> 2 \<and> 2 < length ?W \<and>
          ((0::nat) = 0 \<or> w_start (?W ! 0) - w_end (?W ! (0 - 1)) \<ge> 0.25) \<and>
          (\<forall>k. 0 < k \<and> k \<le> 2 \<longrightarrow> w_start (?W ! k) - w_end (?W ! (k - 1)) < 0.25) \<longrightarrow>
        speaker (smooth_speakers ?W ! 2) = speaker (?W ! 0)" by blast
  with gaps have "speaker (smooth_speakers ?W ! 2) = speaker (?W ! 0)" by simp
  with three show ?thesis by simp
qed

text \<open>
  C10. Smoothing is idempotent: a second pass returns the list of the first pass. The
  pass changes no start and no end timestamp, and after it every adjacent pair with a
  gap below the threshold shares a speaker.
\<close>

theorem smooth_speakers_idempotent:
  "smooth_speakers (smooth_speakers ws) = smooth_speakers ws
   \<and> map w_start (smooth_speakers ws) = map w_start ws
   \<and> map w_end (smooth_speakers ws) = map w_end ws
   \<and> (\<forall>i. 0 < i \<and> i < length ws \<and> w_start (ws ! i) - w_end (ws ! (i - 1)) < 0.25 \<longrightarrow>
        speaker (smooth_speakers ws ! i) = speaker (smooth_speakers ws ! (i - 1)))"
  by (intro conjI)
     (rule smooth_idem smooth_speakers_w_start smooth_speakers_w_end smooth_speakers_adjacent)+

theorem smooth_speakers_idempotent_witness:
  "smooth_speakers (smooth_speakers
      [\<lparr>word = ''a'', speaker = ''A'', w_start = 0, w_end = 0.5\<rparr>,
       \<lparr>word = ''b'', speaker = ''B'', w_start = 0.6, w_end = 1\<rparr>])
   = [\<lparr>word = ''a'', speaker = ''A'', w_start = 0, w_end = 0.5\<rparr>,
      \<lparr>word = ''b'', speaker = ''A'', w_start = 0.6, w_end = 1\<rparr>]
   \<and> speaker (smooth_speakers
      [\<lparr>word = ''a'', speaker = ''A'', w_start = 0, w_end = 0.5\<rparr>,
       \<lparr>word = ''b'', speaker = ''B'', w_start = 0.6, w_end = 1\<rparr>] ! 1)
     = speaker (smooth_speakers
      [\<lparr>word = ''a'', speaker = ''A'', w_start = 0, w_end = 0.5\<rparr>,
       \<lparr>word = ''b'', speaker = ''B'', w_start = 0.6, w_end = 1\<rparr>] ! 0)"
proof -
  let ?W = "[\<lparr>word = ''a'', speaker = ''A'', w_start = 0, w_end = 0.5\<rparr>,
             \<lparr>word = ''b'', speaker = ''B'', w_start = 0.6, w_end = 1\<rparr>]"
  note t = smooth_speakers_idempotent [of ?W]
  from t have idem: "smooth_speakers (smooth_speakers ?W) = smooth_speakers ?W" by (elim conjE)
  from t have "\<forall>i. 0 < i \<and> i < length ?W \<and> w_start (?W ! i) - w_end (?W ! (i - 1)) < 0.25 \<longrightarrow>
        speaker (smooth_speakers ?W ! i) = speaker (smooth_speakers ?W ! (i - 1))"
    by (elim conjE)
  then have "0 < (1::nat) \<and> 1 < length ?W \<and> w_start (?W ! 1) - w_end (?W ! (1 - 1)) < 0.25 \<longrightarrow>
        speaker (smooth_speakers ?W ! 1) = speaker (smooth_speakers ?W ! (1 - 1))"
    by (rule spec)
  then have adj: "speaker (smooth_speakers ?W ! 1) = speaker (smooth_speakers ?W ! 0)" by simp
  have val: "smooth_speakers ?W =
      [\<lparr>word = ''a'', speaker = ''A'', w_start = 0, w_end = 0.5\<rparr>,
       \<lparr>word = ''b'', speaker = ''A'', w_start = 0.6, w_end = 1\<rparr>]"
    by (simp add: smooth_speakers_Cons Let_def)
  from idem val adj show ?thesis by (simp only: simp_thms)
qed

text \<open>
  C2, as the code has it. On the empty segment list the aligner returns the sentinel
  \<open>"Unknown"\<close>; on a non-empty list it returns the speaker of one of the segments.
  So, when no segment is itself labelled \<open>"Unknown"\<close>, the sentinel is returned
  exactly when the list is empty.
\<close>

theorem get_speaker_improved_unknown_iff_empty:
  "(segments = [] \<longrightarrow> get_speaker_improved word_start word_end segments = ''Unknown'')
   \<and> (segments \<noteq> [] \<longrightarrow>
        get_speaker_improved word_start word_end segments \<in> seg_speaker ` set segments)
   \<and> (''Unknown'' \<notin> seg_speaker ` set segments \<longrightarrow>
        (get_speaker_improved word_start word_end segments = ''Unknown'' \<longleftrightarrow> segments = []))"
  using get_improved_in_speakers [of segments word_start word_end]
    get_improved_Nil [of word_start word_end]
  by (cases "segments = []") auto

theorem get_speaker_improved_unknown_iff_empty_witness:
  "get_speaker_improved 5 6 [] = ''Unknown''
   \<and> get_speaker_improved 5 6 [\<lparr>seg_start = 0, seg_end = 1, seg_speaker = ''SPEAKER_00''\<rparr>]
       \<in> seg_speaker ` set [\<lparr>seg_start = 0, seg_end = 1, seg_speaker = ''SPEAKER_00''\<rparr>]
   \<and> get_speaker_improved 5 6 [\<lparr>seg_start = 0, seg_end = 1, seg_speaker = ''SPEAKER_00''\<rparr>]
       \<noteq> ''Unknown''"
  using get_speaker_improved_unknown_iff_empty [of "[]" 5 6]
    get_speaker_improved_unknown_iff_empty
      [of "[\<lparr>seg_start = 0, seg_end = 1, seg_speaker = ''SPEAKER_00''\<rparr>]" 5 6]
  by simp

text \<open>
  C2 as stated fails: the sentinel is a string like any label, and a non-empty list
  whose chosen segment is labelled \<open>"Unknown"\<close> gives it too.
\<close>

theorem get_speaker_improved_unknown_counterexample:
  "get_speaker_improved 0 1 [\<lparr>seg_start = 0, seg_end = 1, seg_speaker = ''Unknown''\<rparr>]
     = ''Unknown''
   \<and> [\<lparr>seg_start = 0, seg_end = 1, seg_speaker = ''Unknown''\<rparr>] \<noteq> []
   \<and> get_speaker_improved 5 6 [\<lparr>seg_start = 0, seg_end = 1, seg_speaker = ''Unknown''\<rparr>]
     = ''Unknown''"
  by (simp add: get_speaker_improved_def seg_dist_def Let_def)

text \<open>
  C3. Exact match has priority, and the first match wins: when some segment contains
  the word's midpoint in its closed interval, the aligner returns the speaker of the
  first such segment in list order, whatever the boundary distances of the others.
\<close>

theorem exact_match_first_wins:
  "((\<exists>s\<in>set segments. seg_start s \<le> (word_start + word_end) / 2
                        \<and> (word_start + word_end) / 2 \<le> seg_end s) \<longrightarrow>
      (\<exists>pre s post. segments = pre @ s # post
         \<and> (\<forall>x\<in>set pre. \<not> (seg_start x \<le> (word_start + word_end) / 2
                                \<and> (word_start + word_end) / 2 \<le> seg_end x))
         \<and> seg_start s \<le> (word_start + word_end) / 2
         \<and> (word_start + word_end) / 2 \<le> seg_end s
         \<and> get_speaker_improved word_start word_end segments = seg_speaker s))
   \<and> ((\<forall>x\<in>set before. \<not> (seg_start x \<le> (word_start + word_end) / 2
                              \<and> (word_start + word_end) / 2 \<le> seg_end x))
       \<and> seg_start seg \<le> (word_start + word_end) / 2
       \<and> (word_start + word_end) / 2 \<le> seg_end seg \<longrightarrow>
       get_speaker_improved word_start word_end (before @ seg # after) = seg_speaker seg)"
proof (intro conjI impI)
  assume "\<exists>s\<in>set segments. seg_start s \<le> (word_start + word_end) / 2
                          \<and> (word_start + word_end) / 2 \<le> seg_end s"
  then show "\<exists>pre s post. segments = pre @ s # post
         \<and> (\<forall>x\<in>set pre. \<not> (seg_start x \<le> (word_start + word_end) / 2
                                \<and> (word_start + word_end) / 2 \<le> seg_end x))
         \<and> seg_start s \<le> (word_start + word_end) / 2
         \<and> (word_start + word_end) / 2 \<le> seg_end s
         \<and> get_speaker_improved word_start word_end segments = seg_speaker s"
    by (rule exact_match_first_decomp)
next
  assume a: "(\<forall>x\<in>set before. \<not> (seg_start x \<le> (word_start + word_end) / 2
                              \<and> (word_start + word_end) / 2 \<le> seg_end x))
       \<and> seg_start seg \<le> (word_start + word_end) / 2
       \<and> (word_start + word_end) / 2 \<le> seg_end seg"
  then have "exact_match ((word_start + word_end) / 2) (before @ seg # after) = Some (seg_speaker seg)"
    by (intro exact_match_first) simp_all
  then show "get_speaker_improved word_start word_end (before @ seg # after) = seg_speaker seg"
    by (rule get_improved_exact)
qed

theorem exact_match_first_wins_witness:
  "get_speaker_improved 0.6 0.8
     [\<lparr>seg_start = 5, seg_end = 6, seg_speaker = ''C''\<rparr>,
      \<lparr>seg_start = 0, seg_end = 1, seg_speaker = ''A''\<rparr>,
      \<lparr>seg_start = 0.5, seg_end = 2, seg_speaker = ''B''\<rparr>] = ''A''"
  using exact_match_first_wins
    [where before = "[\<lparr>seg_start = 5, seg_end = 6, seg_speaker = ''C''\<rparr>]"
       and seg = "\<lparr>seg_start = 0, seg_end = 1, seg_speaker = ''A''\<rparr>"
       and after = "[\<lparr>seg_start = 0.5, seg_end = 2, seg_speaker = ''B''\<rparr>]"
       and word_start = "0.6" and word_end = "0.8" and segments = "[]"]
  by simp



text \<open>
  C5, as the code has it. A word record is read at \<open>'start'\<close>, else at
  \<open>'start_offset'\<close>, and at \<open>'end'\<close>, else at \<open>'end_offset'\<close>; where neither
  name of a time is present the time is 0, no error is raised for it, and the word is
  aligned with the times so read.
\<close>

theorem missing_timing_fields_default:
  "wd_word wd = Some w \<longrightarrow>
     (\<exists>a. assign_word segs wd = Inr a
        \<and> word a = w
        \<and> w_start a = (case wd_start wd of Some v \<Rightarrow> v
                        | None \<Rightarrow> (case wd_start_offset wd of Some v \<Rightarrow> v | None \<Rightarrow> 0))
        \<and> w_end a = (case wd_end wd of Some v \<Rightarrow> v
                      | None \<Rightarrow> (case wd_end_offset wd of Some v \<Rightarrow> v | None \<Rightarrow> 0))
        \<and> speaker a = get_speaker_improved (w_start a) (w_end a) segs)"
proof
  assume "wd_word wd = Some w"
  from assign_word_Inr [OF this, of segs]
  show "\<exists>a. assign_word segs wd = Inr a
        \<and> word a = w
        \<and> w_start a = (case wd_start wd of Some v \<Rightarrow> v
                        | None \<Rightarrow> (case wd_start_offset wd of Some v \<Rightarrow> v | None \<Rightarrow> 0))
        \<and> w_end a = (case wd_end wd of Some v \<Rightarrow> v
                      | None \<Rightarrow> (case wd_end_offset wd of Some v \<Rightarrow> v | None \<Rightarrow> 0))
        \<and> speaker a = get_speaker_improved (w_start a) (w_end a) segs"
    by (simp add: dict_get_case)
qed

theorem missing_timing_fields_default_witness:
  "\<exists>a. assign_word []
          \<lparr>wd_word = Some ''hi'', wd_start = None, wd_end = None,
           wd_start_offset = None, wd_end_offset = Some 2\<rparr> = Inr a
      \<and> word a = ''hi'' \<and> w_start a = 0 \<and> w_end a = 2"
proof -
  let ?wd = "\<lparr>wd_word = Some ''hi'', wd_start = None, wd_end = None,
              wd_start_offset = None, wd_end_offset = Some (2::real)\<rparr>"
  have h: "wd_word ?wd = Some ''hi''" by simp
  from missing_timing_fields_default [where wd = ?wd and w = "''hi''" and segs = "[]"] h
  obtain a where "assign_word [] ?wd = Inr a" "word a = ''hi''"
    "w_start a = (case wd_start ?wd of Some v \<Rightarrow> v
                   | None \<Rightarrow> (case wd_start_offset ?wd of Some v \<Rightarrow> v | None \<Rightarrow> 0))"
    "w_end a = (case wd_end ?wd of Some v \<Rightarrow> v
                 | None \<Rightarrow> (case wd_end_offset ?wd of Some v \<Rightarrow> v | None \<Rightarrow> 0))"
    by blast
  then show ?thesis by (intro exI [of _ a]) simp
qed

text \<open>
  C5 as stated fails: the word loop takes a record with no timing field at all,
  gives it start and end 0 and returns normally, and smoothing and grouping then
  produce the transcript line of that word.
\<close>

theorem missing_timing_fields_counterexample:
  "assign_loop []
     [\<lparr>wd_word = Some ''hi'', wd_start = None, wd_end = None,
       wd_start_offset = None, wd_end_offset = None\<rparr>] []
   = Inr [\<lparr>word = ''hi'', speaker = ''Unknown'', w_start = 0, w_end = 0\<rparr>]
   \<and> build_transcript
       (smooth_speakers [\<lparr>word = ''hi'', speaker = ''Unknown'', w_start = 0, w_end = 0\<rparr>])
     = [\<lparr>utt_speaker = Some ''Unknown'', utt_text = ''hi''\<rparr>]"
  by (simp add: assign_word_def get_speaker_improved_def smooth_speakers_Cons
        build_transcript_def Let_def)

text \<open>
  C6, as the code has it. The output of the grouper is the list of the utterances of
  the maximal speaker runs of its input: the runs concatenate to the input, each is
  non-empty with one speaker, neighbouring runs differ in speaker, and each text is the
  space-join of its run's words. Space-joining the texts gives the space-join of all
  words. When no word text contains a space, splitting every text at single spaces
  and concatenating gives back the word texts in order.
\<close>

theorem grouping_lossless:
  "((\<forall>w\<in>set ws. CHR '' '' \<notin> set (word w)) \<longrightarrow>
      concat (map (\<lambda>u. split_sp (utt_text u)) (build_transcript ws)) = map word ws)
   \<and> join_sp (map utt_text (build_transcript ws)) = join_sp (map word ws)
   \<and> build_transcript ws = map utterance_of (speaker_runs ws)
   \<and> concat (map snd (speaker_runs ws)) = ws
   \<and> (\<forall>r\<in>set (speaker_runs ws). snd r \<noteq> [] \<and> (\<forall>x\<in>set (snd r). speaker x = fst r))
   \<and> distinct_adj (map fst (speaker_runs ws))"
  using lossless_split [of ws]
  by (intro conjI impI)
     (assumption | rule lossless_join build_transcript_runs concat_speaker_runs
        speaker_runs_mono speaker_runs_distinct_adj)+

theorem grouping_lossless_witness:
  "concat (map (\<lambda>u. split_sp (utt_text u))
      (build_transcript
         [\<lparr>word = ''hi'', speaker = ''S0''\<rparr>, \<lparr>word = ''there'', speaker = ''S0''\<rparr>,
          \<lparr>word = ''yes'', speaker = ''S1''\<rparr>]))
   = [''hi'', ''there'', ''yes'']"
proof -
  let ?W = "[\<lparr>word = ''hi'', speaker = ''S0''\<rparr>, \<lparr>word = ''there'', speaker = ''S0''\<rparr>,
             \<lparr>word = ''yes'', speaker = ''S1''\<rparr>]"
  have ns: "\<forall>w\<in>set ?W. CHR '' '' \<notin> set (word w)" by simp
  from grouping_lossless [of ?W] ns
  have "concat (map (\<lambda>u. split_sp (utt_text u)) (build_transcript ?W)) = map word ?W"
    by blast
  then show ?thesis by simp
qed

text \<open>
  C6 as stated fails on a word text that contains a space: the split of the utterance
  text has two pieces for the one word.
\<close>

theorem grouping_lossless_counterexample:
  "concat (map (\<lambda>u. split_sp (utt_text u))
      (build_transcript [\<lparr>word = ''a b'', speaker = ''S''\<rparr>]))
   \<noteq> map word [\<lparr>word = ''a b'', speaker = ''S''\<rparr>]"
  by (simp add: build_transcript_def split_sp_def)

text \<open>
  C8. Grouping is idempotent: the grouper's output, read back as words that carry
  their utterance's speaker, groups to the same utterances, and neighbouring utterances
  of the output differ in speaker. Giving every word of a run its utterance's speaker
  returns the input itself, one word per original word; the words read back from the
  texts are those words too when no word text contains a space.
\<close>

theorem grouping_idempotent:
  "build_transcript (reexpress (build_transcript ws)) = build_transcript ws
   \<and> distinct_adj (map utt_speaker (build_transcript ws))
   \<and> build_transcript ws = map utterance_of (speaker_runs ws)
   \<and> concat (map (\<lambda>r. map (\<lambda>x. x\<lparr>speaker := fst r\<rparr>) (snd r)) (speaker_runs ws)) = ws
   \<and> ((\<forall>w\<in>set ws. CHR '' '' \<notin> set (word w)) \<longrightarrow>
        reexpress (build_transcript ws) = map (\<lambda>w. \<lparr>word = word w, speaker = speaker w\<rparr>) ws)"
  using reexpress_original [of ws]
  by (intro conjI impI)
     (assumption | rule build_idem build_transcript_distinct_adj build_transcript_runs
        runs_reexpress_id)+

theorem grouping_idempotent_witness:
  "reexpress (build_transcript
      [\<lparr>word = ''hi'', speaker = ''S0''\<rparr>, \<lparr>word = ''there'', speaker = ''S0''\<rparr>,
       \<lparr>word = ''yes'', speaker = ''S1''\<rparr>])
   = [\<lparr>word = ''hi'', speaker = ''S0''\<rparr>, \<lparr>word = ''there'', speaker = ''S0''\<rparr>,
      \<lparr>word = ''yes'', speaker = ''S1''\<rparr>]
   \<and> build_transcript (reexpress (build_transcript
      [\<lparr>word = ''hi'', speaker = ''S0''\<rparr>, \<lparr>word = ''there'', speaker = ''S0''\<rparr>,
       \<lparr>word = ''yes'', speaker = ''S1''\<rparr>]))
     = [\<lparr>utt_speaker = Some ''S0'', utt_text = ''hi there''\<rparr>,
        \<lparr>utt_speaker = Some ''S1'', utt_text = ''yes''\<rparr>]"
proof -
  let ?W = "[\<lparr>word = ''hi'', speaker = ''S0''\<rparr>, \<lparr>word = ''there'', speaker = ''S0''\<rparr>,
             \<lparr>word = ''yes'', speaker = ''S1''\<rparr>]"
  note t = grouping_idempotent [of ?W]
  have ns: "\<forall>w\<in>set ?W. CHR '' '' \<notin> set (word w)" by simp
  from t ns have a: "reexpress (build_transcript ?W) = map (\<lambda>w. \<lparr>word = word w, speaker = speaker w\<rparr>) ?W"
    by blast
  from t have b: "build_transcript (reexpress (build_transcript ?W)) = build_transcript ?W"
    by (elim conjE)
  have c: "build_transcript ?W = [\<lparr>utt_speaker = Some ''S0'', utt_text = ''hi there''\<rparr>,
        \<lparr>utt_speaker = Some ''S1'', utt_text = ''yes''\<rparr>]"
    by (simp add: build_transcript_def)
  from a have a': "reexpress (build_transcript ?W) = ?W" by simp
  from a' b c show ?thesis by (simp only: simp_thms)
qed

end
